theory Spec2Isabelle
  imports Complex_Main
begin

section \<open>The Bloom filter of BloomFilter.py\<close>

text \<open>
  The class \<^verbatim>\<open>BloomFilter\<close> is embedded as a record of its six private attributes
  and one function per method. A method that assigns to an attribute returns the updated
  record; a method that only reads returns its value. Every exception the Python can
  raise is a branch that returns \<open>Inl\<close>.

  Python's \<^verbatim>\<open>int\<close> is \<open>int\<close>. Python's \<^verbatim>\<open>float\<close> is read as \<open>real\<close>: the arithmetic
  of \<^verbatim>\<open>__bitsNeeded\<close> and \<^verbatim>\<open>falsePositiveRate\<close> is the exact arithmetic of the
  expressions as written, so rounding, overflow and underflow of IEEE doubles are
  outside the embedding.
\<close>

subsection \<open>Errors\<close>

datatype error =
    ZeroDivisionError   \<comment> \<open>\<^verbatim>\<open>/\<close> and \<^verbatim>\<open>%\<close> by zero, \<^verbatim>\<open>0.0 ** y\<close> with \<open>y < 0\<close>\<close>
  | TypeError           \<comment> \<open>\<^verbatim>\<open>math.ceil\<close> applied to a complex number\<close>
  | BitVectorError      \<comment> \<open>the bit storage refuses a size or an index\<close>

subsection \<open>The two collaborators\<close>

text \<open>
  \<^verbatim>\<open>BitHash(key, seed)\<close> is imported, not defined, by BloomFilter.py. It is a parameter
  \<open>H\<close> of every function that calls it: any function from a key and an integer seed to
  an integer.
\<close>

type_synonym 'k BitHash = "'k \<Rightarrow> int \<Rightarrow> int"

text \<open>
  \<^verbatim>\<open>BitVector\<close> is imported, not defined, by BloomFilter.py. The specification
  describes it as a bit storage primitive with \<open>get(index)\<close>, \<open>set(index)\<close> and a fixed
  size, zero-initialized at creation. Here it is a list of booleans. The specification
  says nothing of a negative size or of an index outside \<open>[0, size)\<close>; the three
  operations refuse them with \<open>BitVectorError\<close>.
\<close>

text \<open>
  Modelled from the spec: the constructor \<^verbatim>\<open>BitVector(size = n)\<close>, missing from the
  source; a storage of fixed size \<open>n\<close>, zero-initialized at creation.
\<close>

definition BitVector_new :: "int \<Rightarrow> error + bool list" where
  "BitVector_new sz =
     (if sz < 0 then Inl BitVectorError else Inr (replicate (nat sz) False))"

text \<open>
  Modelled from the spec: the read \<^verbatim>\<open>bv[i]\<close>, missing from the source; \<open>get(index)\<close>
  returns the bit at the index.
\<close>

definition BitVector_get :: "bool list \<Rightarrow> int \<Rightarrow> error + bool" where
  "BitVector_get bv i =
     (if 0 \<le> i \<and> i < int (length bv) then Inr (bv ! nat i) else Inl BitVectorError)"

text \<open>
  Modelled from the spec: the write \<^verbatim>\<open>bv[i] = 1\<close>, missing from the source;
  \<open>set(index)\<close> makes the bit at the index 1 and leaves the others.
\<close>

definition BitVector_set :: "bool list \<Rightarrow> int \<Rightarrow> error + bool list" where
  "BitVector_set bv i =
     (if 0 \<le> i \<and> i < int (length bv) then Inr (bv[nat i := True]) else Inl BitVectorError)"

subsection \<open>Python's power operator\<close>

text \<open>
  \<^verbatim>\<open>x ** y\<close> with a float exponent: zero to a negative power raises, a negative base
  to a power that is not a whole number gives a complex number (\<open>None\<close> here, since
  only the fact that it is complex matters to \<^verbatim>\<open>math.ceil\<close>).
\<close>

definition py_pow :: "real \<Rightarrow> real \<Rightarrow> error + real option" where
  "py_pow x y =
     (if x = 0 then
        (if y < 0 then Inl ZeroDivisionError
         else if y = 0 then Inr (Some 1) else Inr (Some 0))
      else if 0 < x then Inr (Some (x powr y))
      else if real_of_int \<lfloor>y\<rfloor> = y then Inr (Some (x powi \<lfloor>y\<rfloor>))
      else Inr None)"

text \<open>\<^verbatim>\<open>x ** n\<close> with a float base and an int exponent.\<close>

definition py_pow_int :: "real \<Rightarrow> int \<Rightarrow> error + real" where
  "py_pow_int x n = (if x = 0 \<and> n < 0 then Inl ZeroDivisionError else Inr (x powi n))"

subsection \<open>The class\<close>

record BloomFilter =
  numKeys :: int
  numHashes :: int
  maxFalsePositive :: real
  numBits :: int
  BitVector :: "bool list"
  bitsSet :: int

text \<open>
  \<^verbatim>\<open>__bitsNeeded\<close>, in Python's evaluation order:
  \<^verbatim>\<open>phi = 1 - (maxFalsePositive**(1 / numHashes))\<close>, then
  \<^verbatim>\<open>math.ceil(numHashes / (1 - (phi)**(1 / numKeys)))\<close>.
  A complex \<^verbatim>\<open>phi\<close> stays complex up to \<^verbatim>\<open>math.ceil\<close>, which raises TypeError, unless
  \<^verbatim>\<open>1 / numKeys\<close> raises first.
\<close>

definition bitsNeeded :: "int \<Rightarrow> int \<Rightarrow> real \<Rightarrow> error + int" where
  "bitsNeeded nKeys nHashes maxFP =
     (if nHashes = 0 then Inl ZeroDivisionError
      else
        (case py_pow maxFP (1 / real_of_int nHashes) of
           Inl e \<Rightarrow> Inl e
         | Inr a \<Rightarrow>
             if nKeys = 0 then Inl ZeroDivisionError
             else
               (case a of
                  None \<Rightarrow> Inl TypeError
                | Some a' \<Rightarrow>
                    (let phi = 1 - a' in
                     (case py_pow phi (1 / real_of_int nKeys) of
                        Inl e \<Rightarrow> Inl e
                      | Inr c \<Rightarrow>
                          (case c of
                             None \<Rightarrow> Inl TypeError
                           | Some b \<Rightarrow>
                               if 1 - b = 0 then Inl ZeroDivisionError
                               else Inr \<lceil>real_of_int nHashes / (1 - b)\<rceil>))))))"

text \<open>
  \<^verbatim>\<open>__init__\<close>: the three arguments are stored, the size is computed, the bit vector is
  allocated, the counter starts at 0. An exception leaves no instance.
\<close>

definition init :: "int \<Rightarrow> int \<Rightarrow> real \<Rightarrow> error + BloomFilter" where
  "init nKeys nHashes maxFP =
     (case bitsNeeded nKeys nHashes maxFP of
        Inl e \<Rightarrow> Inl e
      | Inr N \<Rightarrow>
          (case BitVector_new N of
             Inl e \<Rightarrow> Inl e
           | Inr bv \<Rightarrow>
               Inr \<lparr>numKeys = nKeys, numHashes = nHashes, maxFalsePositive = maxFP,
                    numBits = N, BitVector = bv, bitsSet = 0\<rparr>))"

text \<open>
  \<^verbatim>\<open>insert\<close>: the loop \<^verbatim>\<open>for i in range(self.__numHashes)\<close> runs \<open>nat numHashes\<close>
  times; the first argument of \<open>insert_loop\<close> counts the rounds that remain and
  \<open>hashLevel\<close> is the running seed. \<^verbatim>\<open>%\<close> on a zero \<^verbatim>\<open>__numBits\<close> raises; for a
  non-zero one Python's \<^verbatim>\<open>%\<close> on ints is \<open>mod\<close> on \<open>int\<close> (the sign of the divisor).
\<close>

fun insert_loop :: "'k BitHash \<Rightarrow> 'k \<Rightarrow> nat \<Rightarrow> int \<Rightarrow> BloomFilter \<Rightarrow> error + BloomFilter" where
  "insert_loop H key 0 hashLevel bf = Inr bf"
| "insert_loop H key (Suc i) hashLevel bf =
     (let hashLevel' = H key hashLevel in
      if numBits bf = 0 then Inl ZeroDivisionError
      else
        let placeHolder = hashLevel' mod numBits bf in
        (case BitVector_get (BitVector bf) placeHolder of
           Inl e \<Rightarrow> Inl e
         | Inr b \<Rightarrow>
             if \<not> b then
               (case BitVector_set (BitVector bf) placeHolder of
                  Inl e \<Rightarrow> Inl e
                | Inr bv \<Rightarrow>
                    insert_loop H key i hashLevel'
                      (bf\<lparr>BitVector := bv, bitsSet := bitsSet bf + 1\<rparr>))
             else insert_loop H key i hashLevel' bf))"

definition insert_bf :: "'k BitHash \<Rightarrow> BloomFilter \<Rightarrow> 'k \<Rightarrow> error + BloomFilter" where
  "insert_bf H bf key = insert_loop H key (nat (numHashes bf)) 0 bf"

text \<open>\<^verbatim>\<open>find\<close>: the same loop, returning False at the first clear bit.\<close>

fun find_loop :: "'k BitHash \<Rightarrow> 'k \<Rightarrow> nat \<Rightarrow> int \<Rightarrow> BloomFilter \<Rightarrow> error + bool" where
  "find_loop H key 0 hashLevel bf = Inr True"
| "find_loop H key (Suc i) hashLevel bf =
     (let hashLevel' = H key hashLevel in
      if numBits bf = 0 then Inl ZeroDivisionError
      else
        (case BitVector_get (BitVector bf) (hashLevel' mod numBits bf) of
           Inl e \<Rightarrow> Inl e
         | Inr b \<Rightarrow> if \<not> b then Inr False else find_loop H key i hashLevel' bf))"

definition find_bf :: "'k BitHash \<Rightarrow> BloomFilter \<Rightarrow> 'k \<Rightarrow> error + bool" where
  "find_bf H bf key = find_loop H key (nat (numHashes bf)) 0 bf"

text \<open>
  \<^verbatim>\<open>falsePositiveRate\<close>: \<^verbatim>\<open>zeros / self.__numBits\<close> is a true division of two ints and
  raises on a zero \<^verbatim>\<open>__numBits\<close>.
\<close>

definition falsePositiveRate :: "BloomFilter \<Rightarrow> error + real" where
  "falsePositiveRate bf =
     (let zeros = numBits bf - bitsSet bf in
      if numBits bf = 0 then Inl ZeroDivisionError
      else
        let proportionZeros = real_of_int zeros / real_of_int (numBits bf) in
        py_pow_int (1 - proportionZeros) (numHashes bf))"

definition numBitsSet :: "BloomFilter \<Rightarrow> int" where
  "numBitsSet bf = bitsSet bf"

subsection \<open>Sequences of method calls\<close>

text \<open>
  A call of one of the four public methods on an instance, with the value it returns
  and the instance afterwards. \<^verbatim>\<open>find\<close>, \<^verbatim>\<open>falsePositiveRate\<close> and \<^verbatim>\<open>numBitsSet\<close>
  contain no assignment to an attribute, so the instance they leave is the one they got.
\<close>

datatype 'k call = Insert 'k | Find 'k | FalsePositiveRate | NumBitsSet

datatype reply = RNone | RBool bool | RFloat real | RInt int

fun step :: "'k BitHash \<Rightarrow> BloomFilter \<Rightarrow> 'k call \<Rightarrow> error + reply \<times> BloomFilter" where
  "step H bf (Insert key) =
     (case insert_bf H bf key of Inl e \<Rightarrow> Inl e | Inr bf' \<Rightarrow> Inr (RNone, bf'))"
| "step H bf (Find key) =
     (case find_bf H bf key of Inl e \<Rightarrow> Inl e | Inr b \<Rightarrow> Inr (RBool b, bf))"
| "step H bf FalsePositiveRate =
     (case falsePositiveRate bf of Inl e \<Rightarrow> Inl e | Inr r \<Rightarrow> Inr (RFloat r, bf))"
| "step H bf NumBitsSet = Inr (RInt (numBitsSet bf), bf)"

fun run :: "'k BitHash \<Rightarrow> BloomFilter \<Rightarrow> 'k call list \<Rightarrow> error + BloomFilter" where
  "run H bf [] = Inr bf"
| "run H bf (c # cs) =
     (case step H bf c of Inl e \<Rightarrow> Inl e | Inr (r, bf') \<Rightarrow> run H bf' cs)"

subsection \<open>The hash chain of the specification\<close>

text \<open>
  Section 4.2 of the specification, in its own words: a running seed, initialized to 0;
  for each of the \<open>numHashes\<close> rounds the seed becomes \<open>Hash(key, seed)\<close> and the bit
  index of the round is \<open>seed mod numBits\<close>. \<open>HashChain_from\<close> is the chain from a
  given seed with a given number of rounds left.
\<close>

fun HashChain_from :: "'k BitHash \<Rightarrow> 'k \<Rightarrow> int \<Rightarrow> nat \<Rightarrow> int \<Rightarrow> int list" where
  "HashChain_from H key nBits 0 seed = []"
| "HashChain_from H key nBits (Suc r) seed =
     (let seed' = H key seed in (seed' mod nBits) # HashChain_from H key nBits r seed')"

definition HashChain :: "'k BitHash \<Rightarrow> 'k \<Rightarrow> int \<Rightarrow> int \<Rightarrow> int list" where
  "HashChain H key nHashes nBits = HashChain_from H key nBits (nat nHashes) 0"

subsection \<open>The indices a call visits\<close>

text \<open>
  The values \<^verbatim>\<open>placeHolder\<close> takes, in order, in one run of the loop of \<^verbatim>\<open>insert\<close>, and
  the indices at which one run of the loop of \<^verbatim>\<open>find\<close> reads the bit vector, up to its
  \<^verbatim>\<open>return\<close>. Both follow the control flow of the loop they observe and stop where it
  stops.
\<close>

fun insert_indices :: "'k BitHash \<Rightarrow> 'k \<Rightarrow> nat \<Rightarrow> int \<Rightarrow> BloomFilter \<Rightarrow> int list" where
  "insert_indices H key 0 hashLevel bf = []"
| "insert_indices H key (Suc i) hashLevel bf =
     (let hashLevel' = H key hashLevel in
      if numBits bf = 0 then []
      else
        let placeHolder = hashLevel' mod numBits bf in
        (case BitVector_get (BitVector bf) placeHolder of
           Inl e \<Rightarrow> [placeHolder]
         | Inr b \<Rightarrow>
             if \<not> b then
               (case BitVector_set (BitVector bf) placeHolder of
                  Inl e \<Rightarrow> [placeHolder]
                | Inr bv \<Rightarrow>
                    placeHolder # insert_indices H key i hashLevel'
                      (bf\<lparr>BitVector := bv, bitsSet := bitsSet bf + 1\<rparr>))
             else placeHolder # insert_indices H key i hashLevel' bf))"

fun find_indices :: "'k BitHash \<Rightarrow> 'k \<Rightarrow> nat \<Rightarrow> int \<Rightarrow> BloomFilter \<Rightarrow> int list" where
  "find_indices H key 0 hashLevel bf = []"
| "find_indices H key (Suc i) hashLevel bf =
     (let hashLevel' = H key hashLevel in
      if numBits bf = 0 then []
      else
        (case BitVector_get (BitVector bf) (hashLevel' mod numBits bf) of
           Inl e \<Rightarrow> [hashLevel' mod numBits bf]
         | Inr b \<Rightarrow>
             if \<not> b then [hashLevel' mod numBits bf]
             else (hashLevel' mod numBits bf) # find_indices H key i hashLevel' bf))"

subsection \<open>Valid configurations and consistent instances\<close>

text \<open>The inputs the specification calls valid (section 3).\<close>

definition valid_config :: "int \<Rightarrow> int \<Rightarrow> real \<Rightarrow> bool" where
  "valid_config nKeys nHashes maxFP \<longleftrightarrow>
     1 \<le> nKeys \<and> 1 \<le> nHashes \<and> 0 < maxFP \<and> maxFP < 1"

text \<open>The number of 1-bits of a bit vector, by scanning it.\<close>

definition count_ones :: "bool list \<Rightarrow> int" where
  "count_ones bv = int (length (filter (\<lambda>b. b) bv))"

text \<open>
  What holds of an instance after a valid construction and after every method call: at
  least one hash round and one bit, a bit vector of \<open>numBits\<close> bits, a counter equal
  to the number of 1-bits.
\<close>

definition consistent :: "BloomFilter \<Rightarrow> bool" where
  "consistent bf \<longleftrightarrow>
     1 \<le> numHashes bf \<and> 1 \<le> numBits bf \<and>
     int (length (BitVector bf)) = numBits bf \<and>
     bitsSet bf = count_ones (BitVector bf)"

text \<open>One round of the loop of \<^verbatim>\<open>insert\<close> at an index inside the bit vector.\<close>

definition set_index :: "BloomFilter \<Rightarrow> int \<Rightarrow> BloomFilter" where
  "set_index bf i =
     (if BitVector bf ! nat i then bf
      else bf\<lparr>BitVector := (BitVector bf)[nat i := True], bitsSet := bitsSet bf + 1\<rparr>)"

subsection \<open>The sizing formula of the specification\<close>

text \<open>
  Section 4.1 of the specification, in its own words:
  \<open>phi = 1 - maxFalsePositiveRate^(1 / numHashes)\<close> and
  \<open>N = ceil(numHashes / (1 - phi^(1 / numKeys)))\<close>, over the real numbers.
\<close>

definition SizingCalculator :: "int \<Rightarrow> int \<Rightarrow> real \<Rightarrow> int" where
  "SizingCalculator nKeys nHashes maxFP =
     (let phi = 1 - maxFP powr (1 / real_of_int nHashes)
      in \<lceil>real_of_int nHashes / (1 - phi powr (1 / real_of_int nKeys))\<rceil>)"

subsection \<open>How a later instance relates to an earlier one\<close>

text \<open>
  The configuration and the size are the same, no 1-bit has become 0, and the counter is
  not smaller.
\<close>

definition extends :: "BloomFilter \<Rightarrow> BloomFilter \<Rightarrow> bool" where
  "extends bf bf' \<longleftrightarrow>
     numKeys bf' = numKeys bf \<and> numHashes bf' = numHashes bf \<and>
     maxFalsePositive bf' = maxFalsePositive bf \<and> numBits bf' = numBits bf \<and>
     length (BitVector bf') = length (BitVector bf) \<and>
     (\<forall>j < length (BitVector bf). BitVector bf ! j \<longrightarrow> BitVector bf' ! j) \<and>
     bitsSet bf \<le> bitsSet bf'"

subsection \<open>A worked example\<close>

text \<open>
  A hash function on integer keys and the instance that \<^verbatim>\<open>BloomFilter(1, 2, 0.25)\<close>
  builds: \<open>0.25 ** (1 / 2)\<close> is \<open>0.5\<close>, so \<open>phi\<close> is \<open>0.5\<close> and the size is
  \<open>ceil(2 / (1 - 0.5))\<close>, four bits.
\<close>

definition example_hash :: "int BitHash" where
  "example_hash key seed = key + 3 * seed + 1"

definition example_empty :: BloomFilter where
  "example_empty =
     \<lparr>numKeys = 1, numHashes = 2, maxFalsePositive = 1 / 4, numBits = 4,
      BitVector = [False, False, False, False], bitsSet = 0\<rparr>"

text \<open>The same instance after \<^verbatim>\<open>insert(5)\<close>, which sets the bits 2 and 0.\<close>

definition example_filled :: BloomFilter where
  "example_filled =
     \<lparr>numKeys = 1, numHashes = 2, maxFalsePositive = 1 / 4, numBits = 4,
      BitVector = [True, False, True, False], bitsSet = 2\<rparr>"

section \<open>Auxiliary facts\<close>

subsection \<open>The hash chain\<close>

lemma chain_in_range:
  "1 \<le> N \<Longrightarrow> i \<in> set (HashChain_from H key N r s) \<Longrightarrow> 0 \<le> i \<and> i < N"
  by (induction r arbitrary: s) (auto simp: Let_def)


subsection \<open>Counting 1-bits\<close>

lemma count_ones_update:
  "n < length bv \<Longrightarrow> \<not> bv ! n \<Longrightarrow> count_ones (bv[n := True]) = count_ones bv + 1"
  unfolding count_ones_def
proof (induction bv arbitrary: n)
  case Nil
  then show ?case by simp
next
  case (Cons b bv)
  then show ?case by (cases n) auto
qed

lemma count_ones_bounds: "0 \<le> count_ones bv \<and> count_ones bv \<le> int (length bv)"
  by (simp add: count_ones_def)

lemma count_ones_replicate: "count_ones (replicate k False) = 0"
  by (simp add: count_ones_def)

subsection \<open>The sizing formula on valid configurations\<close>

lemma powr_unit_interval:
  fixes x a :: real
  assumes "0 < x" "x < 1" "0 < a"
  shows "0 < x powr a \<and> x powr a < 1"
proof -
  have "x powr a < 1 powr a"
    using assms by (intro powr_less_mono2) simp_all
  then show ?thesis
    using assms by simp
qed

lemma sizing_denominator:
  assumes "valid_config n d P"
  shows "0 < 1 - (1 - P powr (1 / real_of_int d)) powr (1 / real_of_int n)"
    and "1 - (1 - P powr (1 / real_of_int d)) powr (1 / real_of_int n) < 1"
    and "0 < 1 - P powr (1 / real_of_int d)"
proof -
  from assms have d: "0 < 1 / real_of_int d" and n: "0 < 1 / real_of_int n"
    and P: "0 < P" "P < 1"
    by (simp_all add: valid_config_def)
  from powr_unit_interval[OF P d]
  have phi: "0 < 1 - P powr (1 / real_of_int d)" "1 - P powr (1 / real_of_int d) < 1"
    by simp_all
  from powr_unit_interval[OF phi n]
  show "0 < 1 - (1 - P powr (1 / real_of_int d)) powr (1 / real_of_int n)"
    and "1 - (1 - P powr (1 / real_of_int d)) powr (1 / real_of_int n) < 1"
    by simp_all
  show "0 < 1 - P powr (1 / real_of_int d)"
    by (rule phi)
qed

lemma bitsNeeded_valid:
  assumes "valid_config n d P"
  shows "bitsNeeded n d P = Inr (SizingCalculator n d P)"
proof -
  from assms have nz: "d \<noteq> 0" "n \<noteq> 0" "0 < P" "P \<noteq> 0"
    by (auto simp: valid_config_def)
  note den = sizing_denominator[OF assms]
  have 1: "py_pow P (1 / real_of_int d) = Inr (Some (P powr (1 / real_of_int d)))"
    using nz by (simp add: py_pow_def)
  have 2: "py_pow (1 - P powr (1 / real_of_int d)) (1 / real_of_int n)
            = Inr (Some ((1 - P powr (1 / real_of_int d)) powr (1 / real_of_int n)))"
    using den(3) by (simp add: py_pow_def)
  show ?thesis
    unfolding bitsNeeded_def SizingCalculator_def Let_def using nz den(1)
    by (simp add: 1 2)
qed

lemma SizingCalculator_gt:
  assumes "valid_config n d P"
  shows "d < SizingCalculator n d P"
proof -
  let ?q = "1 - (1 - P powr (1 / real_of_int d)) powr (1 / real_of_int n)"
  note den = sizing_denominator[OF assms]
  from assms have d: "0 < real_of_int d"
    by (simp add: valid_config_def)
  have "real_of_int d * ?q < real_of_int d * 1"
    using den(2) d by (intro mult_strict_left_mono)
  then have "real_of_int d < real_of_int d / ?q"
    using den(1) by (simp add: field_simps)
  then have "real_of_int d < real_of_int \<lceil>real_of_int d / ?q\<rceil>"
    by linarith
  then show ?thesis
    by (simp add: SizingCalculator_def Let_def)
qed

subsection \<open>The loops on an arbitrary instance\<close>

lemma init_consistent:
  assumes "valid_config n d P" "init n d P = Inr bf"
  shows "consistent bf \<and> numKeys bf = n \<and> numHashes bf = d \<and> maxFalsePositive bf = P \<and>
         numBits bf = SizingCalculator n d P \<and> bitsSet bf = 0"
proof -
  from SizingCalculator_gt[OF assms(1)] assms(1) have N: "1 \<le> SizingCalculator n d P" "1 \<le> d"
    by (simp_all add: valid_config_def)
  with assms(2) show ?thesis
    by (auto simp: init_def bitsNeeded_valid[OF assms(1)] BitVector_new_def consistent_def
        count_ones_replicate)
qed

lemma insert_loop_frame:
  "insert_loop H key r hl bf = Inr bf1 \<Longrightarrow>
     numKeys bf1 = numKeys bf \<and> numHashes bf1 = numHashes bf \<and>
     maxFalsePositive bf1 = maxFalsePositive bf \<and> numBits bf1 = numBits bf \<and>
     length (BitVector bf1) = length (BitVector bf) \<and>
     (\<forall>j < length (BitVector bf). BitVector bf ! j \<longrightarrow> BitVector bf1 ! j) \<and>
     bitsSet bf \<le> bitsSet bf1"
proof (induction r arbitrary: hl bf)
  case 0
  then show ?case by simp
next
  case (Suc r)
  let ?i = "H key hl mod numBits bf"
  from Suc.prems have nz: "numBits bf \<noteq> 0"
    by (auto simp: Let_def split: if_splits)
  from Suc.prems nz have rng: "0 \<le> ?i" "?i < int (length (BitVector bf))"
    by (auto simp: Let_def BitVector_get_def split: if_splits)
  show ?case
  proof (cases "BitVector bf ! nat ?i")
    case True
    with Suc.prems nz rng have "insert_loop H key r (H key hl) bf = Inr bf1"
      by (simp add: Let_def BitVector_get_def)
    from Suc.IH[OF this] show ?thesis .
  next
    case False
    let ?bf = "bf\<lparr>BitVector := (BitVector bf)[nat ?i := True], bitsSet := bitsSet bf + 1\<rparr>"
    from False Suc.prems nz rng have "insert_loop H key r (H key hl) ?bf = Inr bf1"
      by (simp add: Let_def BitVector_get_def BitVector_set_def)
    from Suc.IH[OF this] have IH:
      "numKeys bf1 = numKeys bf" "numHashes bf1 = numHashes bf"
      "maxFalsePositive bf1 = maxFalsePositive bf" "numBits bf1 = numBits bf"
      "length (BitVector bf1) = length (BitVector bf)"
      "\<forall>j < length (BitVector bf). (BitVector bf)[nat ?i := True] ! j \<longrightarrow> BitVector bf1 ! j"
      "bitsSet bf + 1 \<le> bitsSet bf1"
      by simp_all
    have "BitVector bf1 ! j" if "j < length (BitVector bf)" "BitVector bf ! j" for j
    proof -
      from that rng have "(BitVector bf)[nat ?i := True] ! j"
        by (simp add: nth_list_update)
      with IH(6) that(1) show ?thesis
        by simp
    qed
    with IH show ?thesis
      by simp
  qed
qed

lemma insert_loop_sets:
  "insert_loop H key r hl bf = Inr bf1 \<Longrightarrow> i \<in> set (HashChain_from H key (numBits bf) r hl) \<Longrightarrow>
     0 \<le> i \<and> i < int (length (BitVector bf1)) \<and> BitVector bf1 ! nat i"
proof (induction r arbitrary: hl bf)
  case 0
  then show ?case by simp
next
  case (Suc r)
  let ?i = "H key hl mod numBits bf"
  from Suc.prems(1) have nz: "numBits bf \<noteq> 0"
    by (auto simp: Let_def split: if_splits)
  from Suc.prems(1) nz have rng: "0 \<le> ?i" "?i < int (length (BitVector bf))"
    by (auto simp: Let_def BitVector_get_def split: if_splits)
  from Suc.prems(2) have mem: "i = ?i \<or> i \<in> set (HashChain_from H key (numBits bf) r (H key hl))"
    by (auto simp: Let_def)
  show ?case
  proof (cases "BitVector bf ! nat ?i")
    case True
    with Suc.prems nz rng have run: "insert_loop H key r (H key hl) bf = Inr bf1"
      by (simp add: Let_def BitVector_get_def)
    from insert_loop_frame[OF run] True rng have "0 \<le> ?i \<and> ?i < int (length (BitVector bf1)) \<and> BitVector bf1 ! nat ?i"
      by auto
    with mem Suc.IH[OF run] show ?thesis by auto
  next
    case False
    let ?bf = "bf\<lparr>BitVector := (BitVector bf)[nat ?i := True], bitsSet := bitsSet bf + 1\<rparr>"
    from False Suc.prems nz rng have run: "insert_loop H key r (H key hl) ?bf = Inr bf1"
      by (simp add: Let_def BitVector_get_def BitVector_set_def)
    from insert_loop_frame[OF run] rng have "0 \<le> ?i \<and> ?i < int (length (BitVector bf1)) \<and> BitVector bf1 ! nat ?i"
      by auto
    with mem Suc.IH[OF run] show ?thesis by auto
  qed
qed

lemma insert_loop_nonzero:
  "insert_loop H key r hl bf = Inr bf1 \<Longrightarrow> r \<noteq> 0 \<Longrightarrow> numBits bf \<noteq> 0"
  by (cases r) (auto simp: Let_def split: if_splits)

lemma loops_on_set_bits:
  assumes "r \<noteq> 0 \<longrightarrow> numBits bf \<noteq> 0"
    and "\<And>i. i \<in> set (HashChain_from H key (numBits bf) r hl) \<Longrightarrow>
           0 \<le> i \<and> i < int (length (BitVector bf)) \<and> BitVector bf ! nat i"
  shows "insert_loop H key r hl bf = Inr bf \<and> find_loop H key r hl bf = Inr True"
  using assms
proof (induction r arbitrary: hl)
  case 0
  then show ?case by simp
next
  case (Suc r)
  let ?i = "H key hl mod numBits bf"
  from Suc.prems(1) have nz: "numBits bf \<noteq> 0" by simp
  have "?i \<in> set (HashChain_from H key (numBits bf) (Suc r) hl)" by (simp add: Let_def)
  from Suc.prems(2)[OF this] have here: "0 \<le> ?i" "?i < int (length (BitVector bf))" "BitVector bf ! nat ?i"
    by simp_all
  have "insert_loop H key r (H key hl) bf = Inr bf \<and> find_loop H key r (H key hl) bf = Inr True"
  proof (rule Suc.IH)
    show "r \<noteq> 0 \<longrightarrow> numBits bf \<noteq> 0" using nz by simp
  next
    fix i assume "i \<in> set (HashChain_from H key (numBits bf) r (H key hl))"
    then have "i \<in> set (HashChain_from H key (numBits bf) (Suc r) hl)" by (simp add: Let_def)
    from Suc.prems(2)[OF this] show "0 \<le> i \<and> i < int (length (BitVector bf)) \<and> BitVector bf ! nat i" .
  qed
  with nz here show ?case
    by (simp add: Let_def BitVector_get_def)
qed

subsection \<open>Later instances extend earlier ones\<close>

lemma extends_refl: "extends bf bf"
  by (simp add: extends_def)

lemma extends_trans: "extends a b \<Longrightarrow> extends b c \<Longrightarrow> extends a c"
  by (auto simp: extends_def)

lemma insert_extends: "insert_bf H bf key = Inr bf' \<Longrightarrow> extends bf bf'"
  unfolding insert_bf_def extends_def by (rule insert_loop_frame)

lemma step_extends: "step H bf c = Inr (r, bf') \<Longrightarrow> extends bf bf'"
  by (cases c) (auto simp: extends_refl insert_extends split: sum.splits)

lemma run_extends: "run H bf cs = Inr bf' \<Longrightarrow> extends bf bf'"
proof (induction cs arbitrary: bf)
  case Nil
  then show ?case by (simp add: extends_refl)
next
  case (Cons c cs)
  then obtain r bf1 where 1: "step H bf c = Inr (r, bf1)" and 2: "run H bf1 cs = Inr bf'"
    by (auto split: sum.splits)
  from step_extends[OF 1] Cons.IH[OF 2] show ?case by (rule extends_trans)
qed

subsection \<open>The loops on a consistent instance\<close>

lemma set_index_consistent:
  "consistent bf \<Longrightarrow> 0 \<le> i \<Longrightarrow> i < numBits bf \<Longrightarrow> consistent (set_index bf i)"
  by (auto simp: consistent_def set_index_def count_ones_update)

lemma set_index_numBits: "numBits (set_index bf i) = numBits bf"
  by (simp add: set_index_def)

lemma foldl_set_index_consistent:
  "consistent bf \<Longrightarrow> (\<And>i. i \<in> set js \<Longrightarrow> 0 \<le> i \<and> i < numBits bf) \<Longrightarrow>
     consistent (foldl set_index bf js)"
proof (induction js arbitrary: bf)
  case Nil
  then show ?case by simp
next
  case (Cons j js)
  have "consistent (set_index bf j)"
    using Cons.prems(1) Cons.prems(2)[of j] by (simp add: set_index_consistent)
  moreover have "\<And>i. i \<in> set js \<Longrightarrow> 0 \<le> i \<and> i < numBits (set_index bf j)"
    using Cons.prems(2) by (simp add: set_index_numBits)
  ultimately show ?case
    using Cons.IH by simp
qed

lemma insert_loop_foldl:
  "consistent bf \<Longrightarrow>
   insert_loop H key r s bf = Inr (foldl set_index bf (HashChain_from H key (numBits bf) r s))"
proof (induction r arbitrary: s bf)
  case 0
  then show ?case by simp
next
  case (Suc r)
  let ?i = "H key s mod numBits bf"
  from Suc.prems have N: "1 \<le> numBits bf" and L: "int (length (BitVector bf)) = numBits bf"
    by (auto simp: consistent_def)
  from N have rng: "0 \<le> ?i" "?i < numBits bf"
    by simp_all
  have c: "consistent (set_index bf ?i)"
    using Suc.prems rng by (rule set_index_consistent)
  have "insert_loop H key (Suc r) s bf = insert_loop H key r (H key s) (set_index bf ?i)"
    using N L rng by (auto simp: Let_def BitVector_get_def BitVector_set_def set_index_def)
  also have "\<dots> = Inr (foldl set_index (set_index bf ?i)
                        (HashChain_from H key (numBits bf) r (H key s)))"
    using Suc.IH[OF c] by (simp add: set_index_numBits)
  finally show ?case
    by (simp add: Let_def)
qed

lemma find_loop_all:
  "consistent bf \<Longrightarrow>
   find_loop H key r s bf =
     Inr (list_all (\<lambda>i. BitVector bf ! nat i) (HashChain_from H key (numBits bf) r s))"
proof (induction r arbitrary: s)
  case 0
  then show ?case by simp
next
  case (Suc r)
  from Suc.prems have N: "1 \<le> numBits bf" and L: "int (length (BitVector bf)) = numBits bf"
    by (auto simp: consistent_def)
  from N have rng: "0 \<le> H key s mod numBits bf" "H key s mod numBits bf < numBits bf"
    by simp_all
  show ?case
    using Suc.IH[OF Suc.prems] N L rng by (auto simp: Let_def BitVector_get_def)
qed

lemma insert_consistent:
  assumes "consistent bf"
  shows "\<exists>bf'. insert_bf H bf key = Inr bf' \<and> consistent bf'"
proof -
  let ?js = "HashChain_from H key (numBits bf) (nat (numHashes bf)) 0"
  from assms have "1 \<le> numBits bf" by (simp add: consistent_def)
  then have "\<And>i. i \<in> set ?js \<Longrightarrow> 0 \<le> i \<and> i < numBits bf"
    by (rule chain_in_range)
  with assms have "consistent (foldl set_index bf ?js)"
    by (rule foldl_set_index_consistent)
  then show ?thesis
    by (simp add: insert_bf_def insert_loop_foldl[OF assms])
qed

lemma find_bf_all:
  "consistent bf \<Longrightarrow>
   find_bf H bf key =
     Inr (list_all (\<lambda>i. BitVector bf ! nat i) (HashChain H key (numHashes bf) (numBits bf)))"
  by (simp add: find_bf_def HashChain_def find_loop_all)

lemma falsePositiveRate_value:
  assumes "numBits bf \<noteq> 0" "0 \<le> numHashes bf"
  shows "falsePositiveRate bf =
           Inr ((real_of_int (bitsSet bf) / real_of_int (numBits bf)) ^ nat (numHashes bf))"
proof -
  have "1 - real_of_int (numBits bf - bitsSet bf) / real_of_int (numBits bf)
          = real_of_int (bitsSet bf) / real_of_int (numBits bf)"
    using assms(1) by (simp add: field_simps)
  then show ?thesis
    using assms by (simp add: falsePositiveRate_def py_pow_int_def Let_def power_int_def)
qed

lemma step_consistent:
  assumes "consistent bf"
  shows "\<exists>r bf'. step H bf c = Inr (r, bf') \<and> consistent bf'"
proof (cases c)
  case (Insert key)
  with insert_consistent[OF assms, of H key] show ?thesis by auto
next
  case (Find key)
  with assms show ?thesis by (simp add: find_bf_all)
next
  case FalsePositiveRate
  from assms have "numBits bf \<noteq> 0" "0 \<le> numHashes bf" by (auto simp: consistent_def)
  from falsePositiveRate_value[OF this] FalsePositiveRate assms show ?thesis by simp
next
  case NumBitsSet
  with assms show ?thesis by simp
qed

lemma run_consistent:
  "consistent bf \<Longrightarrow> \<exists>bf'. run H bf cs = Inr bf' \<and> consistent bf'"
proof (induction cs arbitrary: bf)
  case Nil
  then show ?case by simp
next
  case (Cons c cs)
  from step_consistent[OF Cons.prems, of H c] obtain r bf1
    where 1: "step H bf c = Inr (r, bf1)" and 2: "consistent bf1" by blast
  from Cons.IH[OF 2] 1 show ?case by simp
qed

lemma constructed_consistent:
  assumes "valid_config n d P" "init n d P = Inr bf0" "run H bf0 cs = Inr bf"
  shows "consistent bf" "extends bf0 bf"
proof -
  from init_consistent[OF assms(1,2)] have "consistent bf0" by simp
  from run_consistent[OF this, of H cs] assms(3) show "consistent bf" by auto
  from assms(3) show "extends bf0 bf" by (rule run_extends)
qed

subsection \<open>The indices visited on a consistent instance\<close>


lemma insert_indices_chain:
  "consistent bf \<Longrightarrow> insert_indices H key r s bf = HashChain_from H key (numBits bf) r s"
proof (induction r arbitrary: s bf)
  case 0
  then show ?case by simp
next
  case (Suc r)
  let ?i = "H key s mod numBits bf"
  from Suc.prems have N: "1 \<le> numBits bf" and L: "int (length (BitVector bf)) = numBits bf"
    by (auto simp: consistent_def)
  from N have rng: "0 \<le> ?i" "?i < numBits bf"
    by simp_all
  have c: "consistent (set_index bf ?i)"
    using Suc.prems rng by (rule set_index_consistent)
  have "insert_indices H key (Suc r) s bf = ?i # insert_indices H key r (H key s) (set_index bf ?i)"
    using N L rng by (auto simp: Let_def BitVector_get_def BitVector_set_def set_index_def)
  also have "\<dots> = ?i # HashChain_from H key (numBits bf) r (H key s)"
    using Suc.IH[OF c] by (simp add: set_index_numBits)
  finally show ?case
    by (simp add: Let_def)
qed

lemma find_indices_chain:
  "consistent bf \<Longrightarrow>
   find_indices H key r s bf =
     take (Suc (length (takeWhile (\<lambda>i. BitVector bf ! nat i) (HashChain_from H key (numBits bf) r s))))
       (HashChain_from H key (numBits bf) r s)"
proof (induction r arbitrary: s)
  case 0
  then show ?case by simp
next
  case (Suc r)
  from Suc.prems have N: "1 \<le> numBits bf" and L: "int (length (BitVector bf)) = numBits bf"
    by (auto simp: consistent_def)
  from N have rng: "0 \<le> H key s mod numBits bf" "H key s mod numBits bf < numBits bf"
    by simp_all
  show ?case
    using Suc.IH[OF Suc.prems] N L rng by (auto simp: Let_def BitVector_get_def)
qed


subsection \<open>The worked example\<close>

lemma quarter_powr_half: "(1 / 4 :: real) powr (1 / 2) = 1 / 2"
proof -
  have "(1 / 4 :: real) powr (1 / 2) = sqrt (1 / 4)"
    by (simp add: powr_half_sqrt)
  also have "\<dots> = 1 / 2"
    by (simp add: real_sqrt_divide)
  finally show ?thesis .
qed

lemma example_valid: "valid_config 1 2 (1 / 4)"
  by (simp add: valid_config_def)

lemma example_init: "init 1 2 (1 / 4) = Inr example_empty"
  by (simp add: init_def bitsNeeded_def py_pow_def quarter_powr_half BitVector_new_def
      example_empty_def eval_nat_numeral)

lemma example_run: "run example_hash example_empty [Insert 5, Find 6] = Inr example_filled"
  by (simp add: insert_bf_def find_bf_def BitVector_get_def BitVector_set_def
      example_hash_def example_empty_def example_filled_def eval_nat_numeral Let_def)

section \<open>The claims\<close>

text \<open>
  C1. No false negatives. On an instance built from a valid configuration and brought
  to any state by method calls, \<^verbatim>\<open>insert(key)\<close> returns, every sequence of further
  calls returns, and \<^verbatim>\<open>find(key)\<close> after it returns True.
\<close>

theorem no_false_negatives:
  assumes "valid_config nKeys nHashes maxFP"
    and "init nKeys nHashes maxFP = Inr bf0"
    and "run H bf0 before = Inr bf"
  shows "\<exists>bf1. insert_bf H bf key = Inr bf1 \<and>
           (\<forall>between. \<exists>bf2. run H bf1 between = Inr bf2 \<and> find_bf H bf2 key = Inr True)"
proof -
  from constructed_consistent(1)[OF assms] have c: "consistent bf" .
  from insert_consistent[OF c, of H key] obtain bf1
    where ins: "insert_bf H bf key = Inr bf1" and c1: "consistent bf1"
    by blast
  have "\<exists>bf2. run H bf1 between = Inr bf2 \<and> find_bf H bf2 key = Inr True" for between
  proof -
    from run_consistent[OF c1, of H between] obtain bf2
      where run2: "run H bf1 between = Inr bf2" and c2: "consistent bf2"
      by blast
    from insert_extends[OF ins] have e01: "extends bf bf1" .
    from run_extends[OF run2] have e12: "extends bf1 bf2" .
    let ?r = "nat (numHashes bf)"
    from ins have loop: "insert_loop H key ?r 0 bf = Inr bf1"
      by (simp add: insert_bf_def)
    have cfg: "numBits bf2 = numBits bf" "numHashes bf2 = numHashes bf"
      using e01 e12 by (simp_all add: extends_def)
    have "insert_loop H key ?r 0 bf2 = Inr bf2 \<and> find_loop H key ?r 0 bf2 = Inr True"
    proof (rule loops_on_set_bits)
      show "?r \<noteq> 0 \<longrightarrow> numBits bf2 \<noteq> 0"
        using c2 by (simp add: consistent_def)
    next
      fix i
      assume "i \<in> set (HashChain_from H key (numBits bf2) ?r 0)"
      then have "i \<in> set (HashChain_from H key (numBits bf) ?r 0)"
        by (simp add: cfg)
      from insert_loop_sets[OF loop this]
      have i: "0 \<le> i" "i < int (length (BitVector bf1))" "BitVector bf1 ! nat i"
        by simp_all
      with e12 show "0 \<le> i \<and> i < int (length (BitVector bf2)) \<and> BitVector bf2 ! nat i"
        by (simp add: extends_def)
    qed
    then have "find_bf H bf2 key = Inr True"
      by (simp add: find_bf_def cfg)
    with run2 show ?thesis
      by blast
  qed
  with ins show ?thesis
    by blast
qed

theorem no_false_negatives_witness:
  "valid_config 1 2 (1 / 4) \<and> init 1 2 (1 / 4) = Inr example_empty \<and>
   run example_hash example_empty [Insert 5, Find 6] = Inr example_filled \<and>
   (\<exists>bf1. insert_bf example_hash example_filled 7 = Inr bf1 \<and>
      (\<forall>between. \<exists>bf2. run example_hash bf1 between = Inr bf2 \<and>
          find_bf example_hash bf2 7 = Inr True))"
  using no_false_negatives[OF example_valid example_init example_run, of 7]
    example_valid example_init example_run
  by blast

text \<open>
  C2, as amended. \<^verbatim>\<open>__init__\<close> validates nothing and the class has no
  \<open>InvalidConfiguration\<close> error. With \<open>numHashes = 0\<close>, with \<open>numKeys = 0\<close> (and
  \<open>numHashes \<ge> 1\<close>), and with \<open>maxFalsePositiveRate = 0\<close> (and \<open>numKeys, numHashes \<ge> 1\<close>)
  construction fails with Python's ZeroDivisionError, raised in \<^verbatim>\<open>__bitsNeeded\<close> before the
  bit vector is allocated, and yields no instance. With \<open>maxFalsePositiveRate = 1\<close> (and
  \<open>numKeys, numHashes \<ge> 1\<close>) construction succeeds: the instance has \<open>numHashes\<close> bits,
  all 0, and a counter of 0.
\<close>

theorem init_without_validation:
  "(nHashes = 0 \<longrightarrow> init nKeys nHashes maxFP = Inl ZeroDivisionError) \<and>
   (1 \<le> nHashes \<and> nKeys = 0 \<longrightarrow> init nKeys nHashes maxFP = Inl ZeroDivisionError) \<and>
   (1 \<le> nKeys \<and> 1 \<le> nHashes \<and> maxFP = 0 \<longrightarrow>
      init nKeys nHashes maxFP = Inl ZeroDivisionError) \<and>
   (1 \<le> nKeys \<and> 1 \<le> nHashes \<and> maxFP = 1 \<longrightarrow>
      init nKeys nHashes maxFP =
        Inr \<lparr>numKeys = nKeys, numHashes = nHashes, maxFalsePositive = 1, numBits = nHashes,
             BitVector = replicate (nat nHashes) False, bitsSet = 0\<rparr>)"
proof (intro conjI impI)
  assume "nHashes = 0"
  then show "init nKeys nHashes maxFP = Inl ZeroDivisionError"
    by (simp add: init_def bitsNeeded_def)
next
  assume "1 \<le> nHashes \<and> nKeys = 0"
  then show "init nKeys nHashes maxFP = Inl ZeroDivisionError"
    by (simp add: init_def bitsNeeded_def py_pow_def)
next
  assume "1 \<le> nKeys \<and> 1 \<le> nHashes \<and> maxFP = 0"
  then show "init nKeys nHashes maxFP = Inl ZeroDivisionError"
    by (simp add: init_def bitsNeeded_def py_pow_def)
next
  assume "1 \<le> nKeys \<and> 1 \<le> nHashes \<and> maxFP = 1"
  then show "init nKeys nHashes maxFP =
        Inr \<lparr>numKeys = nKeys, numHashes = nHashes, maxFalsePositive = 1, numBits = nHashes,
             BitVector = replicate (nat nHashes) False, bitsSet = 0\<rparr>"
    by (simp add: init_def bitsNeeded_def py_pow_def BitVector_new_def)
qed

theorem init_without_validation_witness:
  "init 100000 0 (1 / 20) = Inl ZeroDivisionError \<and>
   init 0 4 (1 / 20) = Inl ZeroDivisionError \<and>
   init 100000 4 0 = Inl ZeroDivisionError \<and>
   init 100000 4 1 =
     Inr \<lparr>numKeys = 100000, numHashes = 4, maxFalsePositive = 1, numBits = 4,
          BitVector = replicate (nat 4) False, bitsSet = 0\<rparr>"
  using init_without_validation[of 0 100000 "1 / 20"] init_without_validation[of 4 0 "1 / 20"]
    init_without_validation[of 4 100000 0] init_without_validation[of 4 100000 1]
  by simp

text \<open>
  C2 as stated fails: \<^verbatim>\<open>BloomFilter(100000, 4, 1)\<close> has a rate that is not below 1, and
  yet construction returns an instance, with four bits.
\<close>

theorem init_rate_one_counterexample:
  "\<not> valid_config 100000 4 1 \<and>
   init 100000 4 1 =
     Inr \<lparr>numKeys = 100000, numHashes = 4, maxFalsePositive = 1, numBits = 4,
          BitVector = [False, False, False, False], bitsSet = 0\<rparr>"
  by (simp add: valid_config_def init_def bitsNeeded_def py_pow_def BitVector_new_def
      eval_nat_numeral)






text \<open>
  C5. In every state reached from a valid construction by method calls, \<open>bitsSet\<close> is
  the number of 1-bits of the bit vector, lies between 0 and \<open>numBits\<close>, is not below
  its value at construction, and is not decreased by the next call, whichever method it
  is; \<^verbatim>\<open>numBitsSet()\<close> returns \<open>bitsSet\<close> and leaves the instance as it was.
\<close>

theorem bitsSet_counts_ones:
  assumes "valid_config nKeys nHashes maxFP"
    and "init nKeys nHashes maxFP = Inr bf0"
    and "run H bf0 calls = Inr bf"
    and "step H bf c = Inr (r, bf')"
  shows "bitsSet bf = count_ones (BitVector bf) \<and> 0 \<le> bitsSet bf \<and> bitsSet bf \<le> numBits bf \<and>
         bitsSet bf0 \<le> bitsSet bf \<and> bitsSet bf \<le> bitsSet bf' \<and>
         numBitsSet bf = bitsSet bf \<and>
         step H bf NumBitsSet = Inr (RInt (bitsSet bf), bf)"
proof -
  from constructed_consistent[OF assms(1-3)] have c: "consistent bf" and e: "extends bf0 bf" .
  from c have eq: "bitsSet bf = count_ones (BitVector bf)"
    and len: "int (length (BitVector bf)) = numBits bf"
    by (simp_all add: consistent_def)
  from count_ones_bounds[of "BitVector bf"] eq len
  have "0 \<le> bitsSet bf" "bitsSet bf \<le> numBits bf"
    by simp_all
  moreover from e have "bitsSet bf0 \<le> bitsSet bf"
    by (simp add: extends_def)
  moreover from step_extends[OF assms(4)] have "bitsSet bf \<le> bitsSet bf'"
    by (simp add: extends_def)
  ultimately show ?thesis
    using eq by (simp add: numBitsSet_def)
qed

theorem bitsSet_counts_ones_witness:
  "valid_config 1 2 (1 / 4) \<and> init 1 2 (1 / 4) = Inr example_empty \<and>
   run example_hash example_empty [Insert 5, Find 6] = Inr example_filled \<and>
   step example_hash example_filled (Find 5) = Inr (RBool True, example_filled) \<and>
   bitsSet example_filled = count_ones (BitVector example_filled) \<and>
   0 \<le> bitsSet example_filled \<and> bitsSet example_filled \<le> numBits example_filled \<and>
   bitsSet example_empty \<le> bitsSet example_filled \<and>
   numBitsSet example_filled = bitsSet example_filled \<and>
   step example_hash example_filled NumBitsSet = Inr (RInt (bitsSet example_filled), example_filled)"
proof -
  have s: "step example_hash example_filled (Find 5) = Inr (RBool True, example_filled)"
    by (simp add: find_bf_def example_hash_def example_filled_def eval_nat_numeral Let_def
        BitVector_get_def)
  from bitsSet_counts_ones[OF example_valid example_init example_run s]
    example_valid example_init example_run s
  show ?thesis
    by blast
qed



text \<open>
  C7. Inserting a key twice in a row is inserting it once: on every instance, a second
  \<^verbatim>\<open>insert(key)\<close> right after the first leaves the whole instance, bit vector and
  \<open>bitsSet\<close> included, as the first left it (and if the first raises, so does the
  sequence of the two, with the same error).
\<close>

theorem insert_idempotent:
  "(case insert_bf H s key of Inl e \<Rightarrow> Inl e | Inr s1 \<Rightarrow> insert_bf H s1 key) =
     insert_bf H s key"
proof (cases "insert_bf H s key")
  case (Inl e)
  then show ?thesis by simp
next
  case (Inr s1)
  let ?r = "nat (numHashes s)"
  from Inr have loop: "insert_loop H key ?r 0 s = Inr s1"
    by (simp add: insert_bf_def)
  from insert_loop_frame[OF loop] have cfg: "numBits s1 = numBits s" "numHashes s1 = numHashes s"
    by simp_all
  have "insert_loop H key ?r 0 s1 = Inr s1 \<and> find_loop H key ?r 0 s1 = Inr True"
  proof (rule loops_on_set_bits)
    show "?r \<noteq> 0 \<longrightarrow> numBits s1 \<noteq> 0"
      using insert_loop_nonzero[OF loop] cfg by simp
  next
    fix i
    assume "i \<in> set (HashChain_from H key (numBits s1) ?r 0)"
    then have "i \<in> set (HashChain_from H key (numBits s) ?r 0)"
      by (simp add: cfg)
    from insert_loop_sets[OF loop this]
    show "0 \<le> i \<and> i < int (length (BitVector s1)) \<and> BitVector s1 ! nat i" .
  qed
  then have "insert_bf H s1 key = Inr s1"
    by (simp add: insert_bf_def cfg)
  with Inr show ?thesis
    by simp
qed

text \<open>
  C8. In every state reached from a valid construction, \<^verbatim>\<open>find(key)\<close> returns True if
  all the bits addressed by the \<open>numHashes\<close> indices of the chain are 1 and False if one
  of them is 0, and it leaves the instance, configuration, bit vector and \<open>bitsSet\<close>,
  as it was.
\<close>

theorem find_reads_only:
  assumes "valid_config nKeys nHashes maxFP"
    and "init nKeys nHashes maxFP = Inr bf0"
    and "run H bf0 calls = Inr bf"
  shows "find_bf H bf key =
           Inr (list_all (\<lambda>i. BitVector bf ! nat i) (HashChain H key (numHashes bf) (numBits bf))) \<and>
         step H bf (Find key) =
           Inr (RBool (list_all (\<lambda>i. BitVector bf ! nat i)
                        (HashChain H key (numHashes bf) (numBits bf))), bf)"
proof -
  from constructed_consistent(1)[OF assms] have "consistent bf" .
  then show ?thesis
    by (simp add: find_bf_all)
qed

theorem find_reads_only_witness:
  "valid_config 1 2 (1 / 4) \<and> init 1 2 (1 / 4) = Inr example_empty \<and>
   run example_hash example_empty [Insert 5, Find 6] = Inr example_filled \<and>
   step example_hash example_filled (Find 4) = Inr (RBool False, example_filled) \<and>
   step example_hash example_filled (Find 5) = Inr (RBool True, example_filled)"
proof -
  have 4: "list_all (\<lambda>i. BitVector example_filled ! nat i)
        (HashChain example_hash 4 (numHashes example_filled) (numBits example_filled)) = False"
    by (simp add: HashChain_def example_hash_def example_filled_def eval_nat_numeral Let_def)
  have 5: "list_all (\<lambda>i. BitVector example_filled ! nat i)
        (HashChain example_hash 5 (numHashes example_filled) (numBits example_filled)) = True"
    by (simp add: HashChain_def example_hash_def example_filled_def eval_nat_numeral Let_def)
  from find_reads_only[OF example_valid example_init example_run, of 4]
  have "step example_hash example_filled (Find 4) = Inr (RBool False, example_filled)"
    by (simp only: 4)
  moreover from find_reads_only[OF example_valid example_init example_run, of 5]
  have "step example_hash example_filled (Find 5) = Inr (RBool True, example_filled)"
    by (simp only: 5)
  ultimately show ?thesis
    using example_valid example_init example_run by blast
qed

text \<open>
  C9. In every state reached from a valid construction, \<^verbatim>\<open>insert(key)\<close> returns, and
  the value of \<^verbatim>\<open>falsePositiveRate()\<close> after it is greater than or equal to the value before
  it.
\<close>

theorem falsePositiveRate_monotone:
  assumes "valid_config nKeys nHashes maxFP"
    and "init nKeys nHashes maxFP = Inr bf0"
    and "run H bf0 calls = Inr bf"
  shows "\<exists>bf' r r'. insert_bf H bf key = Inr bf' \<and> falsePositiveRate bf = Inr r \<and>
           falsePositiveRate bf' = Inr r' \<and> r \<le> r'"
proof -
  from constructed_consistent(1)[OF assms] have c: "consistent bf" .
  from insert_consistent[OF c, of H key] obtain bf'
    where ins: "insert_bf H bf key = Inr bf'" and c': "consistent bf'"
    by blast
  from insert_extends[OF ins]
  have same: "numBits bf' = numBits bf" "numHashes bf' = numHashes bf"
    and le: "bitsSet bf \<le> bitsSet bf'"
    by (simp_all add: extends_def)
  from c have N: "0 < numBits bf" and d: "0 \<le> numHashes bf"
    and b: "0 \<le> bitsSet bf"
    using count_ones_bounds[of "BitVector bf"] by (simp_all add: consistent_def)
  let ?r = "(real_of_int (bitsSet bf) / real_of_int (numBits bf)) ^ nat (numHashes bf)"
  let ?r' = "(real_of_int (bitsSet bf') / real_of_int (numBits bf)) ^ nat (numHashes bf)"
  have r: "falsePositiveRate bf = Inr ?r"
    using N d by (intro falsePositiveRate_value) simp_all
  have r': "falsePositiveRate bf' = Inr ?r'"
    using falsePositiveRate_value[of bf'] N d same by simp
  have "real_of_int (bitsSet bf) / real_of_int (numBits bf)
          \<le> real_of_int (bitsSet bf') / real_of_int (numBits bf)"
    using le N by (simp add: divide_right_mono)
  moreover have "0 \<le> real_of_int (bitsSet bf) / real_of_int (numBits bf)"
    using b N by simp
  ultimately have "?r \<le> ?r'"
    by (rule power_mono)
  with ins r r' show ?thesis
    by blast
qed

theorem falsePositiveRate_monotone_witness:
  "valid_config 1 2 (1 / 4) \<and> init 1 2 (1 / 4) = Inr example_empty \<and>
   run example_hash example_empty [] = Inr example_empty \<and>
   insert_bf example_hash example_empty 5 = Inr example_filled \<and>
   falsePositiveRate example_empty = Inr 0 \<and> falsePositiveRate example_filled = Inr (1 / 4) \<and>
   (\<exists>bf' r r'. insert_bf example_hash example_empty 5 = Inr bf' \<and>
      falsePositiveRate example_empty = Inr r \<and> falsePositiveRate bf' = Inr r' \<and> r \<le> r')"
proof -
  have run0: "run example_hash example_empty [] = Inr example_empty"
    by simp
  have ins: "insert_bf example_hash example_empty 5 = Inr example_filled"
    by (simp add: insert_bf_def BitVector_get_def BitVector_set_def example_hash_def
        example_empty_def example_filled_def eval_nat_numeral Let_def)
  have r0: "falsePositiveRate example_empty = Inr 0"
    by (simp add: falsePositiveRate_def py_pow_int_def example_empty_def Let_def)
  have r1: "falsePositiveRate example_filled = Inr (1 / 4)"
    by (simp add: falsePositiveRate_def py_pow_int_def example_filled_def Let_def
        power_int_def eval_nat_numeral)
  from falsePositiveRate_monotone[OF example_valid example_init run0, of 5]
    example_valid example_init run0 ins r0 r1
  show ?thesis
    by blast
qed

text \<open>
  C10. On an instance built from a valid configuration, in any state, \<open>numBits\<close> is the
  size computed at construction and is at least 1, so \<^verbatim>\<open>%\<close> never divides by zero;
  every index \<^verbatim>\<open>insert(key)\<close> and \<^verbatim>\<open>find(key)\<close> compute lies in \<open>[0, numBits)\<close> and
  inside the bit vector; and both calls return without an error.
\<close>

theorem accesses_in_bounds:
  assumes "valid_config nKeys nHashes maxFP"
    and "init nKeys nHashes maxFP = Inr bf0"
    and "run H bf0 calls = Inr bf"
  shows "1 \<le> numBits bf \<and> numBits bf = numBits bf0 \<and>
         int (length (BitVector bf)) = numBits bf \<and>
         (\<forall>i \<in> set (insert_indices H key (nat (numHashes bf)) 0 bf) \<union>
                set (find_indices H key (nat (numHashes bf)) 0 bf).
            0 \<le> i \<and> i < numBits bf \<and> nat i < length (BitVector bf)) \<and>
         (\<exists>bf'. insert_bf H bf key = Inr bf') \<and> (\<exists>b. find_bf H bf key = Inr b)"
proof -
  from constructed_consistent[OF assms] have c: "consistent bf" and e: "extends bf0 bf" .
  let ?r = "nat (numHashes bf)"
  let ?chain = "HashChain_from H key (numBits bf) ?r 0"
  from c have N: "1 \<le> numBits bf" and L: "int (length (BitVector bf)) = numBits bf"
    by (simp_all add: consistent_def)
  have ins: "insert_indices H key ?r 0 bf = ?chain"
    using c by (rule insert_indices_chain)
  have "set (find_indices H key ?r 0 bf) \<subseteq> set ?chain"
    unfolding find_indices_chain[OF c] by (rule set_take_subset)
  with ins have "i \<in> set ?chain"
    if "i \<in> set (insert_indices H key ?r 0 bf) \<union> set (find_indices H key ?r 0 bf)" for i
    using that by auto
  with chain_in_range[OF N] L
  have "\<forall>i \<in> set (insert_indices H key ?r 0 bf) \<union> set (find_indices H key ?r 0 bf).
          0 \<le> i \<and> i < numBits bf \<and> nat i < length (BitVector bf)"
    by (metis nat_less_iff)
  moreover from insert_consistent[OF c, of H key] have "\<exists>bf'. insert_bf H bf key = Inr bf'"
    by blast
  moreover have "\<exists>b. find_bf H bf key = Inr b"
    by (simp add: find_bf_all[OF c])
  moreover from e have "numBits bf = numBits bf0"
    by (simp add: extends_def)
  ultimately show ?thesis
    using N L by blast
qed

theorem accesses_in_bounds_witness:
  "valid_config 1 2 (1 / 4) \<and> init 1 2 (1 / 4) = Inr example_empty \<and>
   run example_hash example_empty [Insert 5, Find 6] = Inr example_filled \<and>
   1 \<le> numBits example_filled \<and>
   insert_indices example_hash 7 (nat (numHashes example_filled)) 0 example_filled = [0, 0] \<and>
   find_indices example_hash 7 (nat (numHashes example_filled)) 0 example_filled = [0, 0] \<and>
   (\<exists>bf'. insert_bf example_hash example_filled 7 = Inr bf') \<and>
   (\<exists>b. find_bf example_hash example_filled 7 = Inr b)"
proof -
  have written: "insert_indices example_hash 7 (nat (numHashes example_filled)) 0 example_filled
      = [0, 0]"
    by (simp add: example_hash_def example_filled_def eval_nat_numeral Let_def
        BitVector_get_def)
  have examined: "find_indices example_hash 7 (nat (numHashes example_filled)) 0 example_filled
      = [0, 0]"
    by (simp add: example_hash_def example_filled_def eval_nat_numeral Let_def
        BitVector_get_def)
  from accesses_in_bounds[OF example_valid example_init example_run, of 7]
  have "1 \<le> numBits example_filled"
    and "\<exists>bf'. insert_bf example_hash example_filled 7 = Inr bf'"
    and "\<exists>b. find_bf example_hash example_filled 7 = Inr b"
    by blast+
  with written examined example_valid example_init example_run show ?thesis
    by blast
qed

end
